theory Spec2Isabelle
  imports Complex_Main
begin

section \<open>The Integer Arithmetic Service\<close>

text \<open>
  The scripts call three functions of the sympy library: \<open>isprime\<close>, \<open>factorint\<close> and
  \<open>jacobi_symbol\<close>. The library is not part of the repository, so the three are modelled
  here from their contracts (sections 4.1 to 4.3 of the specification), as executable
  definitions over Python's unbounded integers (\<open>int\<close>).
\<close>

datatype error = ValueError | ZeroDivisionError

text \<open>
  Modelled from the spec: \<open>sympy.isprime\<close>, the Primality Oracle of section 4.1. An
  integer is prime when it is greater than one and no integer of \<open>2 .. m - 1\<close> divides it;
  every integer below two is not prime.
\<close>

definition isprime :: "int \<Rightarrow> bool" where
  "isprime m = (1 < m \<and> list_all (\<lambda>d. \<not> d dvd m) [2..m - 1])"

text \<open>The exponent of \<open>q\<close> in \<open>m\<close>: the number of powers \<open>q ^ k\<close>, \<open>k \<ge> 1\<close>, dividing \<open>m\<close>.\<close>

definition multiplicity_of :: "int \<Rightarrow> int \<Rightarrow> nat" where
  "multiplicity_of q m = length (filter (\<lambda>k. q ^ k dvd m) [1..<Suc (nat m)])"

text \<open>
  Modelled from the spec: \<open>sympy.factorint\<close>, the Integer Factorizer of section 4.2. The
  dictionary prime \<open>\<mapsto>\<close> exponent is an association list in ascending order of the primes.
  As the library does, \<open>1\<close> has the empty factorisation, \<open>0\<close> has \<open>{0: 1}\<close> and a negative
  integer has the extra key \<open>-1\<close>.
\<close>

definition factorint :: "int \<Rightarrow> (int \<times> nat) list" where
  "factorint m =
     (if m = 0 then [(0, 1)]
      else (if m < 0 then [(- 1, 1)] else []) @
           map (\<lambda>q. (q, multiplicity_of q \<bar>m\<bar>))
               (filter (\<lambda>q. isprime q \<and> q dvd m) [2..\<bar>m\<bar>]))"

definition keys :: "(int \<times> nat) list \<Rightarrow> int list" where
  "keys d = map fst d"

text \<open>
  The Legendre symbol of section 4.3 at a prime \<open>q\<close>: \<open>0\<close> when \<open>q\<close> divides \<open>a\<close>, \<open>1\<close> when
  \<open>a\<close> is a non-zero square modulo \<open>q\<close>, \<open>-1\<close> otherwise.
\<close>

definition legendre :: "int \<Rightarrow> int \<Rightarrow> int" where
  "legendre a q =
     (if a mod q = 0 then 0
      else if list_ex (\<lambda>x. x * x mod q = a mod q) [1..q - 1] then 1 else - 1)"

text \<open>
  Modelled from the spec: \<open>sympy.jacobi_symbol\<close>, the Legendre/Jacobi Evaluator of
  section 4.3. The library raises \<open>ValueError\<close> unless the modulus is odd and positive;
  otherwise the symbol is the product of the Legendre symbols at the prime factors of the
  modulus, each taken with its exponent. At a prime modulus it is the Legendre symbol.
\<close>

definition jacobi_symbol :: "int \<Rightarrow> int \<Rightarrow> error + int" where
  "jacobi_symbol m k =
     (if k \<le> 0 \<or> even k then Inl ValueError
      else Inr (prod_list (map (\<lambda>(q, e). legendre m q ^ e) (factorint k))))"

section \<open>The Spin Scanner: \<open>verify_spin_asymmetry.py\<close>\<close>

record spin_record =
  n :: int
  p :: int
  missing_residue :: int
  N_plus :: int
  N_minus :: int
  N_zero :: int
  expected_plus :: int
  expected_minus :: int
  gap :: int
  theorem_holds :: bool

text \<open>
  The loop \<open>for x in interior\<close> of \<open>verify_interval\<close>, with the three counters
  \<open>(n_plus, n_minus, n_zero)\<close> as its state. A symbol other than \<open>1\<close> and \<open>-1\<close> changes
  no counter; an exception of the evaluator ends the loop.
\<close>

fun count_spins :: "int \<Rightarrow> int list \<Rightarrow> int \<times> int \<times> int \<Rightarrow> error + (int \<times> int \<times> int)" where
  "count_spins q [] s = Inr s"
| "count_spins q (x # xs) (n_plus, n_minus, n_zero) =
     (let res = x mod q in
      if res = 0 then count_spins q xs (n_plus, n_minus, n_zero + 1)
      else (case jacobi_symbol res q of
              Inl e \<Rightarrow> Inl e
            | Inr ls \<Rightarrow>
                if ls = 1 then count_spins q xs (n_plus + 1, n_minus, n_zero)
                else if ls = - 1 then count_spins q xs (n_plus, n_minus + 1, n_zero)
                else count_spins q xs (n_plus, n_minus, n_zero)))"

text \<open>
  \<open>verify_interval\<close>: \<open>None\<close> when \<open>2n - 1\<close> is not prime, otherwise the record of the
  scan of \<open>range(start + 1, end)\<close>, that is of the integers \<open>start + 1 .. end - 1\<close>.
\<close>

definition verify_interval :: "int \<Rightarrow> error + spin_record option" where
  "verify_interval k =
     (let q = 2 * k - 1 in
      if \<not> isprime q then Inr None
      else
        let start = (k - 1) ^ 2;
            end_val = k ^ 2;
            interior = [start + 1..end_val - 1];
            r = (k * k) mod q
        in (case count_spins q interior (0, 0, 0) of
              Inl e \<Rightarrow> Inl e
            | Inr (n_plus, n_minus, n_zero) \<Rightarrow>
                let exp_plus = (q - 3) div 2;
                    exp_minus = (q - 1) div 2;
                    exp_zero = 1;
                    holds = (n_plus = exp_plus \<and> n_minus = exp_minus \<and> n_zero = exp_zero)
                in Inr (Some \<lparr> n = k, p = q, missing_residue = r,
                               N_plus = n_plus, N_minus = n_minus, N_zero = n_zero,
                               expected_plus = exp_plus, expected_minus = exp_minus,
                               gap = n_minus - n_plus, theorem_holds = holds \<rparr>)))"

text \<open>
  The batch loop of \<open>main\<close>: \<open>for n in range(2, limit + 1)\<close>, with the state
  \<open>(results, total, holds)\<close>. A result \<open>None\<close> changes nothing.
\<close>

fun batch_step :: "spin_record list \<times> nat \<times> nat \<Rightarrow> int \<Rightarrow> error + (spin_record list \<times> nat \<times> nat)" where
  "batch_step (results, total_n, holds_n) k =
     (case verify_interval k of
        Inl e \<Rightarrow> Inl e
      | Inr None \<Rightarrow> Inr (results, total_n, holds_n)
      | Inr (Some result) \<Rightarrow>
          Inr (results @ [result], total_n + 1,
               if theorem_holds result then holds_n + 1 else holds_n))"

fun batch_loop :: "int list \<Rightarrow> spin_record list \<times> nat \<times> nat \<Rightarrow> error + (spin_record list \<times> nat \<times> nat)" where
  "batch_loop [] s = Inr s"
| "batch_loop (k # ks) s =
     (case batch_step s k of Inl e \<Rightarrow> Inl e | Inr s' \<Rightarrow> batch_loop ks s')"

definition batch :: "int \<Rightarrow> error + (spin_record list \<times> nat \<times> nat)" where
  "batch limit = batch_loop [2..limit] ([], 0, 0)"

section \<open>The Composite Run Finder: \<open>wronskian_scanner.py\<close>\<close>

text \<open>
  The loop of \<open>find_max_composite_gap\<close> with the state \<open>(max_gap, current_gap)\<close>: a
  non-prime is appended to the current run; a prime ends it, and the run replaces the
  best one when it is strictly longer.
\<close>

fun gap_step :: "int list \<times> int list \<Rightarrow> int \<Rightarrow> int list \<times> int list" where
  "gap_step (max_gap, current_gap) x =
     (if \<not> isprime x then (max_gap, current_gap @ [x])
      else (if length current_gap > length max_gap then current_gap else max_gap, []))"

fun gap_loop :: "int list \<Rightarrow> int list \<times> int list \<Rightarrow> int list \<times> int list" where
  "gap_loop [] s = s"
| "gap_loop (x # xs) s = gap_loop xs (gap_step s x)"

text \<open>The comparison after the loop, for the run that is still open at its end.\<close>

fun final_compare :: "int list \<times> int list \<Rightarrow> int list" where
  "final_compare (max_gap, current_gap) =
     (if length current_gap > length max_gap then current_gap else max_gap)"

definition find_max_composite_gap :: "int \<Rightarrow> int list" where
  "find_max_composite_gap k =
     (let start = (k - 1) ^ 2; end_val = k ^ 2
      in final_compare (gap_loop [start..end_val] ([], [])))"

text \<open>
  An integer is composite when it is greater than one and not prime. The scan itself
  only tests \<open>not sympy.isprime(x)\<close>.
\<close>

definition composite :: "int \<Rightarrow> bool" where
  "composite m = (1 < m \<and> \<not> isprime m)"

section \<open>The Radical Volume Calculator: \<open>compute_wronskian\<close>\<close>

text \<open>
  The integer part of \<open>compute_wronskian\<close> is embedded as it is written: which members
  and which primes reach \<open>math.log\<close>, which exception is raised, and which branch of the
  guard \<open>log_radical > 0\<close> is taken. \<open>math.log\<close> raises \<open>ValueError\<close> at an argument
  that is not positive, \<open>/\<close> raises \<open>ZeroDivisionError\<close> at a zero divisor, and
  \<open>float('inf')\<close> is a value of its own.

  The floats themselves are idealised: \<open>py_log\<close> returns the real natural logarithm where
  \<open>math.log\<close> returns a double near it, and the sum and the quotient are exact where
  Python rounds each operation. The idealisation is sound for what does not depend on
  rounding: whether a call raises, and whether a sum of logarithms of positive integers
  is zero (every term is \<open>math.log(1) = 0.0\<close>) or positive (some term is the logarithm
  of an integer above one). It is not sound for the order of two sums of logarithms: for
  the reals \<open>ln 11 + ln 3 = ln 33\<close>, for the doubles
  \<open>math.log(11) + math.log(3) > math.log(33)\<close>. No statement of this theory asserts,
  of a value returned by \<open>compute_wronskian\<close>, that a log-radical is at most a
  log-volume or that a ratio is at least one; where a logarithm appears as a value it
  is the real one.
\<close>

datatype ratio = Finite real | Infinity

definition py_log :: "int \<Rightarrow> error + real" where
  "py_log c = (if c \<le> 0 then Inl ValueError else Inr (ln (real_of_int c)))"

definition py_div :: "real \<Rightarrow> real \<Rightarrow> error + real" where
  "py_div a b = (if b = 0 then Inl ZeroDivisionError else Inr (a / b))"

text \<open>\<open>sum(math.log(c) for c in cs)\<close>: the running sum, left to right.\<close>

fun sum_logs :: "real \<Rightarrow> int list \<Rightarrow> error + real" where
  "sum_logs acc [] = Inr acc"
| "sum_logs acc (c # cs) =
     (case py_log c of Inl e \<Rightarrow> Inl e | Inr l \<Rightarrow> sum_logs (acc + l) cs)"

text \<open>
  The loop \<open>for c in composites: all_primes.update(factorint(c).keys())\<close>; the set
  \<open>all_primes\<close> is a list without repetitions.
\<close>

fun collect_primes :: "int list \<Rightarrow> int list \<Rightarrow> int list" where
  "collect_primes all_primes [] = all_primes"
| "collect_primes all_primes (c # cs) =
     collect_primes (List.union (keys (factorint c)) all_primes) cs"

definition compute_wronskian :: "int list \<Rightarrow> error + (real \<times> real \<times> ratio) option" where
  "compute_wronskian composites =
     (if composites = [] then Inr None
      else (case sum_logs 0 composites of
              Inl e \<Rightarrow> Inl e
            | Inr log_volume \<Rightarrow>
                (case sum_logs 0 (collect_primes [] composites) of
                   Inl e \<Rightarrow> Inl e
                 | Inr log_radical \<Rightarrow>
                     if log_radical > 0
                     then (case py_div log_volume log_radical of
                             Inl e \<Rightarrow> Inl e
                           | Inr q_w \<Rightarrow> Inr (Some (log_volume, log_radical, Finite q_w)))
                     else Inr (Some (log_volume, log_radical, Infinity)))))"

section \<open>The radical of the product: \<open>dual_weapon.py\<close>\<close>

text \<open>\<open>compute_radical\<close>: \<open>1\<close> below two, otherwise the product of the keys of \<open>factorint\<close>.\<close>

definition compute_radical :: "int \<Rightarrow> int" where
  "compute_radical m =
     (if m \<le> 1 then 1 else fold (\<lambda>q rad. rad * q) (keys (factorint m)) 1)"

text \<open>The loop \<open>for x in max_gap_seq: total_product *= x\<close> of \<open>weapon_B_wronskian_volume\<close>.\<close>

definition total_product :: "int list \<Rightarrow> int" where
  "total_product max_gap_seq = fold (\<lambda>x t. t * x) max_gap_seq 1"

section \<open>Notions used in the statements\<close>

text \<open>\<open>r\<close> is a non-zero square modulo \<open>q\<close>.\<close>

definition is_qr :: "int \<Rightarrow> int \<Rightarrow> bool" where
  "is_qr q r \<longleftrightarrow> (\<exists>x\<in>{1..q - 1}. x * x mod q = r)"

text \<open>
  \<open>a, a + 1, \<dots>, a + l - 1\<close> is a run of non-primes inside the interval \<open>s .. e\<close>
  (the empty run when \<open>l = 0\<close>).
\<close>

definition nonprime_run :: "int \<Rightarrow> int \<Rightarrow> int \<Rightarrow> int \<Rightarrow> bool" where
  "nonprime_run s e a l \<longleftrightarrow>
     s \<le> a \<and> 0 \<le> l \<and> a + l - 1 \<le> e \<and> (\<forall>x. a \<le> x \<and> x < a + l \<longrightarrow> \<not> isprime x)"

text \<open>
  The invariant of the scan after the integers \<open>s .. m\<close>: the current run is \<open>c .. m\<close>, the
  non-primes since the last prime \<open>c - 1\<close> (or since \<open>s\<close>); the best run starts at \<open>a\<close> and
  is the earliest among the longest runs of non-primes that lie before \<open>c\<close>.
\<close>

definition gap_inv :: "int \<Rightarrow> int \<Rightarrow> int list \<times> int list \<Rightarrow> bool" where
  "gap_inv s m st \<longleftrightarrow>
     (\<exists>a c. s \<le> c \<and> c \<le> m + 1 \<and> snd st = [c..m]
        \<and> (\<forall>x. c \<le> x \<and> x \<le> m \<longrightarrow> \<not> isprime x)
        \<and> (c = s \<or> isprime (c - 1))
        \<and> fst st = [a..a + int (length (fst st)) - 1]
        \<and> nonprime_run s (c - 1) a (int (length (fst st)))
        \<and> (\<forall>a' l'. nonprime_run s (c - 1) a' l' \<longrightarrow>
              l' \<le> int (length (fst st)) \<and> (l' = int (length (fst st)) \<longrightarrow> a \<le> a')))"

section \<open>Primes\<close>

lemma isprime_iff: "isprime m \<longleftrightarrow> 1 < m \<and> (\<forall>d. 2 \<le> d \<and> d < m \<longrightarrow> \<not> d dvd m)"
  by (auto simp: isprime_def list_all_iff)

lemma isprime_gt1: "isprime q \<Longrightarrow> 1 < q"
  by (simp add: isprime_iff)

lemma isprime_divisor:
  assumes "isprime q" "d dvd q" "0 \<le> d"
  shows "d = 1 \<or> d = q"
proof -
  have q: "1 < q" using assms(1) by (simp add: isprime_iff)
  have "d \<noteq> 0" using assms(2) q by auto
  moreover have "d \<le> q" using assms(2) q by (simp add: zdvd_imp_le)
  ultimately have "d = 1 \<or> d = q \<or> (2 \<le> d \<and> d < q)" using assms(3) by linarith
  then show ?thesis using assms(1,2) by (auto simp: isprime_iff)
qed

lemma isprime_coprime:
  assumes "isprime q" "\<not> q dvd a"
  shows "coprime q a"
proof -
  have "gcd q a = 1 \<or> gcd q a = q"
    using isprime_divisor[OF assms(1), of "gcd q a"] by simp
  moreover have "gcd q a \<noteq> q" using assms(2) by (metis gcd_dvd2)
  ultimately show ?thesis by (simp add: coprime_iff_gcd_eq_1)
qed

lemma isprime_dvd_mult:
  assumes "isprime q" "q dvd a * b"
  shows "q dvd a \<or> q dvd b"
  using assms isprime_coprime coprime_dvd_mult_right_iff by blast

lemma isprime_dvd_prod_list:
  "isprime q \<Longrightarrow> q dvd prod_list cs \<Longrightarrow> \<exists>c\<in>set cs. q dvd c"
proof (induction cs)
  case Nil
  then show ?case using isprime_gt1[of q] by auto
next
  case (Cons c cs)
  then show ?case using isprime_dvd_mult[of q c "prod_list cs"] by auto
qed

lemma dvd_prod_list_member: "c \<in> set cs \<Longrightarrow> (c::int) dvd prod_list cs"
  by (induction cs) auto

lemma isprime_dvd_power: "isprime q \<Longrightarrow> q dvd a ^ k \<Longrightarrow> q dvd a"
proof (induction k)
  case 0
  then show ?case using isprime_gt1[of q] by simp
next
  case (Suc k)
  then show ?case using isprime_dvd_mult[of q a "a ^ k"] by auto
qed

section \<open>The symbol at a prime modulus\<close>

lemma multiplicity_of_self:
  assumes "1 < q"
  shows "multiplicity_of q q = 1"
proof -
  have split: "[1..<Suc (nat q)] = 1 # [Suc 1..<Suc (nat q)]"
    by (rule upt_conv_Cons) (use assms in simp)
  have "\<not> q ^ k dvd q" if "2 \<le> k" for k
  proof
    assume "q ^ k dvd q"
    then have "q ^ k \<le> q" using assms by (simp add: zdvd_imp_le)
    moreover have "q ^ 2 \<le> q ^ k" using assms that by (simp add: power_increasing)
    moreover have "q < q ^ 2" using assms by (simp add: power2_eq_square)
    ultimately show False by linarith
  qed
  then have "filter (\<lambda>k. q ^ k dvd q) [Suc 1..<Suc (nat q)] = []"
    by (auto simp: filter_empty_conv simp del: upt_Suc)
  then have "filter (\<lambda>k. q ^ k dvd q) (1 # [Suc 1..<Suc (nat q)]) = [1]"
    by (simp del: upt_Suc)
  then show ?thesis unfolding multiplicity_of_def split by simp
qed

lemma factorint_isprime:
  assumes "isprime q"
  shows "factorint q = [(q, 1)]"
proof -
  have q: "1 < q" using assms by (rule isprime_gt1)
  have split: "[2..q] = [2..q - 1] @ [q]" using q by (simp add: upto_rec2)
  have "filter (\<lambda>d. isprime d \<and> d dvd q) [2..q - 1] = []"
    using assms by (auto simp: filter_empty_conv isprime_iff)
  then have "filter (\<lambda>d. isprime d \<and> d dvd q) [2..q] = [q]"
    using assms by (simp add: split)
  then show ?thesis using q by (simp add: factorint_def multiplicity_of_self)
qed

lemma jacobi_symbol_isprime:
  assumes "isprime q" "odd q"
  shows "jacobi_symbol a q = Inr (legendre a q)"
  using assms isprime_gt1[of q] by (simp add: jacobi_symbol_def factorint_isprime)

lemma legendre_cases:
  "legendre a q = (if a mod q = 0 then 0 else if is_qr q (a mod q) then 1 else - 1)"
  by (simp add: legendre_def is_qr_def list_ex_iff)

text \<open>The loop as three filters.\<close>

lemma count_spins_filter:
  assumes "isprime q" "odd q"
  shows "count_spins q xs (a, b, c) =
     Inr (a + int (length (filter (\<lambda>x. x mod q \<noteq> 0 \<and> is_qr q (x mod q)) xs)),
          b + int (length (filter (\<lambda>x. x mod q \<noteq> 0 \<and> \<not> is_qr q (x mod q)) xs)),
          c + int (length (filter (\<lambda>x. x mod q = 0) xs)))"
proof (induction xs arbitrary: a b c)
  case Nil
  show ?case by simp
next
  case (Cons x xs)
  have m: "x mod q mod q = x mod q" by simp
  show ?case
    by (simp add: Let_def jacobi_symbol_isprime[OF assms] legendre_cases m Cons.IH)
qed

section \<open>Counting residues over the interior of the interval\<close>

lemma not_dvd_between: "0 < (x::int) \<Longrightarrow> x < q \<Longrightarrow> \<not> q dvd x"
  by (simp add: zdvd_not_zless)

lemma dvd_small_diff:
  assumes "(q::int) dvd x - y" "\<bar>x - y\<bar> < q"
  shows "x = y"
proof (rule ccontr)
  assume "x \<noteq> y"
  then have "q dvd \<bar>x - y\<bar>" "0 < \<bar>x - y\<bar>" using assms(1) by auto
  then show False using assms(2) zdvd_not_zless by blast
qed

lemma residues_image:
  assumes "0 < (q::int)"
  shows "(\<lambda>x. x mod q) ` {s + 1..s + q - 1} = {0..q - 1} - {s mod q}"
proof (rule set_eqI, rule iffI)
  fix r assume "r \<in> (\<lambda>x. x mod q) ` {s + 1..s + q - 1}"
  then obtain x where x: "s + 1 \<le> x" "x \<le> s + q - 1" "r = x mod q" by auto
  have "x mod q \<noteq> s mod q"
  proof
    assume "x mod q = s mod q"
    then have "q dvd x - s" by (simp add: mod_eq_dvd_iff)
    then have "x = s" using x by (intro dvd_small_diff[of q]) auto
    then show False using x by simp
  qed
  then show "r \<in> {0..q - 1} - {s mod q}" using x assms by simp
next
  fix r assume "r \<in> {0..q - 1} - {s mod q}"
  then have r: "0 \<le> r" "r < q" "r \<noteq> s mod q" by auto
  define x where "x = s + (r - s) mod q"
  have xm: "x mod q = r" using r by (simp add: x_def mod_add_right_eq)
  have "(r - s) mod q \<noteq> 0"
  proof
    assume "(r - s) mod q = 0"
    then have "x = s" by (simp add: x_def)
    then show False using xm r by simp
  qed
  moreover have "0 \<le> (r - s) mod q" "(r - s) mod q < q" using assms by simp_all
  ultimately have "x \<in> {s + 1..s + q - 1}" by (simp add: x_def)
  then show "r \<in> (\<lambda>x. x mod q) ` {s + 1..s + q - 1}" using xm by blast
qed

lemma residues_inj:
  assumes "0 < (q::int)"
  shows "inj_on (\<lambda>x. x mod q) {s + 1..s + q - 1}"
proof (rule inj_onI)
  fix x y assume xy: "x \<in> {s + 1..s + q - 1}" "y \<in> {s + 1..s + q - 1}" "x mod q = y mod q"
  then have "q dvd x - y" by (simp add: mod_eq_dvd_iff)
  then show "x = y" using xy by (intro dvd_small_diff[of q]) auto
qed

lemma count_by_residue:
  assumes "0 < (q::int)"
  shows "length (filter (\<lambda>x. Q (x mod q)) [s + 1..s + q - 1])
       = card {r \<in> {0..q - 1} - {s mod q}. Q r}"
proof -
  let ?A = "{x \<in> {s + 1..s + q - 1}. Q (x mod q)}"
  have "length (filter (\<lambda>x. Q (x mod q)) [s + 1..s + q - 1]) = card ?A"
    by (simp add: distinct_length_filter Int_def conj_commute)
  also have "\<dots> = card ((\<lambda>x. x mod q) ` ?A)"
    by (rule card_image[symmetric]) (rule inj_on_subset[OF residues_inj[OF assms, of s]], auto)
  also have "(\<lambda>x. x mod q) ` ?A = {r \<in> (\<lambda>x. x mod q) ` {s + 1..s + q - 1}. Q r}"
    by auto
  also have "\<dots> = {r \<in> {0..q - 1} - {s mod q}. Q r}"
    by (simp only: residues_image[OF assms])
  finally show ?thesis .
qed

lemma square_nonzero_mod:
  assumes "isprime q" "0 < x" "x < q"
  shows "x * x mod q \<noteq> 0"
proof
  assume "x * x mod q = 0"
  then have "q dvd x * x" by (simp add: dvd_eq_mod_eq_0)
  then have "q dvd x" using isprime_dvd_mult[OF assms(1)] by blast
  then show False using assms(2,3) not_dvd_between by blast
qed

lemma square_mod_reflect: "(q - x) * (q - x) mod q = x * x mod (q::int)"
proof -
  have "(q - x) * (q - x) = x * x + q * (q - 2 * x)" by (simp add: algebra_simps)
  then show ?thesis by simp
qed

lemma squares_inj:
  assumes "isprime q" "q = 2 * h + 1"
  shows "inj_on (\<lambda>x. x * x mod q) {1..h}"
proof (rule inj_onI)
  fix x y assume xy: "x \<in> {1..h}" "y \<in> {1..h}" "x * x mod q = y * y mod q"
  then have "q dvd x * x - y * y" by (simp add: mod_eq_dvd_iff)
  moreover have "x * x - y * y = (x - y) * (x + y)" by (simp add: algebra_simps)
  ultimately have "q dvd x - y \<or> q dvd x + y" using isprime_dvd_mult[OF assms(1)] by simp
  moreover have "\<not> q dvd x + y" using xy assms(2) by (intro not_dvd_between) auto
  ultimately have "q dvd x - y" by simp
  then show "x = y" using xy assms(2) by (intro dvd_small_diff[of q]) auto
qed

lemma qr_set_eq:
  assumes "isprime q" "q = 2 * h + 1"
  shows "{r \<in> {1..q - 1}. is_qr q r} = (\<lambda>x. x * x mod q) ` {1..h}"
proof (rule set_eqI, rule iffI)
  fix r assume "r \<in> {r \<in> {1..q - 1}. is_qr q r}"
  then obtain x where x: "1 \<le> x" "x \<le> q - 1" "x * x mod q = r" by (auto simp: is_qr_def)
  show "r \<in> (\<lambda>x. x * x mod q) ` {1..h}"
  proof (cases "x \<le> h")
    case True
    then show ?thesis using x by auto
  next
    case False
    then have "q - x \<in> {1..h}" using x assms(2) by auto
    moreover have "(q - x) * (q - x) mod q = r" using x by (simp add: square_mod_reflect)
    ultimately show ?thesis by blast
  qed
next
  fix r assume "r \<in> (\<lambda>x. x * x mod q) ` {1..h}"
  then obtain x where x: "1 \<le> x" "x \<le> h" "r = x * x mod q" by auto
  have q: "1 < q" using assms(1) by (rule isprime_gt1)
  have "r \<noteq> 0" using square_nonzero_mod[OF assms(1), of x] x assms(2) by simp
  moreover have "0 \<le> r" "r < q" using q x by simp_all
  moreover have "is_qr q r" using x assms(2) by (auto simp: is_qr_def)
  ultimately show "r \<in> {r \<in> {1..q - 1}. is_qr q r}" by simp
qed

lemma card_qr:
  assumes "isprime q" "q = 2 * h + 1"
  shows "int (card {r \<in> {1..q - 1}. is_qr q r}) = h"
proof -
  have "0 < q" using isprime_gt1[OF assms(1)] by simp
  then have "0 \<le> h" using assms(2) by simp
  have "card {r \<in> {1..q - 1}. is_qr q r} = card ((\<lambda>x. x * x mod q) ` {1..h})"
    by (simp only: qr_set_eq[OF assms])
  also have "\<dots> = card {1..h}" by (rule card_image[OF squares_inj[OF assms]])
  finally show ?thesis using \<open>0 \<le> h\<close> by simp
qed

lemma spin_counts:
  assumes "2 \<le> k" "isprime (2 * k - 1)"
  shows "count_spins (2 * k - 1) [(k - 1) ^ 2 + 1..k ^ 2 - 1] (0, 0, 0)
         = Inr (k - 2, k - 1, 1)"
proof -
  define q where "q = 2 * k - 1"
  define s where "s = (k - 1) ^ 2"
  define r0 where "r0 = s mod q"
  define QR where "QR = {r \<in> {1..q - 1}. is_qr q r}"
  have pq: "isprime q" using assms(2) by (simp add: q_def)
  have oq: "odd q" by (simp add: q_def)
  have q0: "0 < q" using assms(1) by (simp add: q_def)
  have qh: "q = 2 * (k - 1) + 1" by (simp add: q_def)
  have e: "k ^ 2 - 1 = s + q - 1" by (simp add: s_def q_def power2_eq_square algebra_simps)
  have r0_sq: "r0 = (k - 1) * (k - 1) mod q" by (simp add: r0_def s_def power2_eq_square)
  have r0_ne: "r0 \<noteq> 0"
    unfolding r0_sq using assms(1) by (intro square_nonzero_mod[OF pq]) (auto simp: q_def)
  have r0_rng: "0 \<le> r0" "r0 < q" using q0 by (simp_all add: r0_def)
  have "is_qr q r0"
    unfolding is_qr_def r0_sq using assms(1) by (intro bexI[of _ "k - 1"]) (auto simp: q_def)
  moreover have "r0 \<in> {1..q - 1}" using r0_ne r0_rng by auto
  ultimately have r0_qr: "r0 \<in> QR" by (simp add: QR_def)
  have sub: "QR \<subseteq> {1..q - 1}" unfolding QR_def by (rule Collect_restrict)
  have fin: "finite QR" by (rule finite_subset[OF sub]) simp
  have cQR: "int (card QR) = k - 1" unfolding QR_def by (rule card_qr[OF pq qh])
  have zero: "{r \<in> {0..q - 1} - {r0}. r = 0} = {0}" using r0_ne q0 by auto
  have plus: "{r \<in> {0..q - 1} - {r0}. r \<noteq> 0 \<and> is_qr q r} = QR - {r0}"
    by (auto simp: QR_def)
  have minus: "{r \<in> {0..q - 1} - {r0}. r \<noteq> 0 \<and> \<not> is_qr q r} = {1..q - 1} - QR"
    using r0_qr by (auto simp: QR_def)
  have "0 < card QR" using r0_qr fin by (auto simp: card_gt_0_iff)
  then have c_plus: "int (card (QR - {r0})) = k - 2"
    using cQR r0_qr by (simp add: card_Diff_singleton of_nat_diff)
  have "card ({1..q - 1} - QR) = card {1..q - 1} - card QR"
    by (rule card_Diff_subset[OF fin sub])
  then have c_minus: "int (card ({1..q - 1} - QR)) = k - 1"
    using cQR assms(1) by (simp add: q_def)
  have n_plus: "int (length (filter (\<lambda>x. x mod q \<noteq> 0 \<and> is_qr q (x mod q)) [s + 1..s + q - 1]))
      = k - 2"
    unfolding count_by_residue[OF q0, of "\<lambda>r. r \<noteq> 0 \<and> is_qr q r" s] r0_def[symmetric] plus
    by (rule c_plus)
  have n_minus: "int (length (filter (\<lambda>x. x mod q \<noteq> 0 \<and> \<not> is_qr q (x mod q)) [s + 1..s + q - 1]))
      = k - 1"
    unfolding count_by_residue[OF q0, of "\<lambda>r. r \<noteq> 0 \<and> \<not> is_qr q r" s] r0_def[symmetric] minus
    by (rule c_minus)
  have n_zero: "int (length (filter (\<lambda>x. x mod q = 0) [s + 1..s + q - 1])) = 1"
    unfolding count_by_residue[OF q0, of "\<lambda>r. r = 0" s] r0_def[symmetric] zero
    by simp
  show ?thesis
    unfolding q_def[symmetric] s_def[symmetric] e
    by (simp only: count_spins_filter[OF pq oq] n_plus n_minus n_zero) simp
qed

section \<open>The spin asymmetry law\<close>

text \<open>
  Claim C1. For every \<open>n \<ge> 2\<close> with \<open>p = 2n - 1\<close> prime, \<open>verify_interval\<close> returns a
  record (no exception, not \<open>None\<close>) with \<open>N_plus + N_minus + N_zero = p - 1\<close>,
  \<open>N_zero = 1\<close>, \<open>N_minus - N_plus = 1\<close>, \<open>N_plus = (p - 3) / 2\<close> and
  \<open>N_minus = (p - 1) / 2\<close>, and its flag \<open>theorem_holds\<close> is true.
\<close>

theorem spin_asymmetry:
  assumes "2 \<le> k" "isprime (2 * k - 1)"
  shows "\<exists>r. verify_interval k = Inr (Some r)
           \<and> p r = 2 * k - 1
           \<and> N_plus r + N_minus r + N_zero r = p r - 1
           \<and> N_zero r = 1
           \<and> N_minus r - N_plus r = 1
           \<and> N_plus r = (p r - 3) div 2
           \<and> N_minus r = (p r - 1) div 2
           \<and> gap r = 1
           \<and> theorem_holds r"
proof -
  have h1: "(2 * k - 1 - 3) div 2 = k - 2" by simp
  have h2: "(2 * k - 1 - 1) div 2 = k - 1" by simp
  show ?thesis
    using assms(2)
    by (simp add: verify_interval_def Let_def spin_counts[OF assms] h1 h2)
qed

theorem spin_asymmetry_witness:
  "(2::int) \<le> 4 \<and> isprime (2 * 4 - 1)
   \<and> (\<exists>r. verify_interval 4 = Inr (Some r) \<and> p r = 7 \<and> N_plus r = 2 \<and> N_minus r = 3
          \<and> N_zero r = 1 \<and> theorem_holds r)"
proof -
  have h: "isprime (2 * 4 - 1)" by code_simp
  show ?thesis using spin_asymmetry[of 4, OF _ h] h by auto
qed

text \<open>
  Claim C7. At \<open>n = 2\<close> (so \<open>p = 3\<close> and the interior is \<open>{2, 3}\<close>) \<open>verify_interval\<close>
  returns the tally \<open>N_plus = 0\<close>, \<open>N_minus = 1\<close>, \<open>N_zero = 1\<close> with \<open>gap = 1\<close>, the
  predictions are \<open>0\<close> and \<open>1\<close>, and \<open>theorem_holds\<close> is true.
\<close>

theorem verify_interval_2:
  "verify_interval 2 =
     Inr (Some \<lparr> n = 2, p = 3, missing_residue = 1, N_plus = 0, N_minus = 1, N_zero = 1,
                  expected_plus = 0, expected_minus = 1, gap = 1, theorem_holds = True \<rparr>)"
  by code_simp

theorem verify_interval_2_witness:
  "\<exists>r. verify_interval 2 = Inr (Some r) \<and> N_plus r = (p r - 3) div 2
        \<and> N_minus r = (p r - 1) div 2 \<and> N_zero r = 1 \<and> gap r = 1 \<and> theorem_holds r"
  using verify_interval_2 by simp

section \<open>The batch driver and non-prime moduli\<close>

lemma batch_step_counts:
  assumes "batch_step (rs, t, h) k = Inr (rs', t', h')"
  shows "t' = t + (if isprime (2 * k - 1) then 1 else 0)
       \<and> map n rs' = map n rs @ (if isprime (2 * k - 1) then [k] else [])"
proof (cases "isprime (2 * k - 1)")
  case False
  then have "verify_interval k = Inr None" by (simp add: verify_interval_def)
  then show ?thesis using assms False by simp
next
  case True
  then show ?thesis using assms
    by (auto simp: verify_interval_def Let_def split: sum.splits prod.splits)
qed

lemma batch_loop_counts:
  "batch_loop ks (rs, t, h) = Inr (rs', t', h') \<Longrightarrow>
     t' = t + length (filter (\<lambda>k. isprime (2 * k - 1)) ks)
   \<and> map n rs' = map n rs @ filter (\<lambda>k. isprime (2 * k - 1)) ks"
proof (induction ks arbitrary: rs t h)
  case Nil
  then show ?case by simp
next
  case (Cons k ks)
  from Cons.prems obtain rs1 t1 h1 where
    s: "batch_step (rs, t, h) k = Inr (rs1, t1, h1)" and
    l: "batch_loop ks (rs1, t1, h1) = Inr (rs', t', h')"
    by (auto split: sum.splits)
  from batch_step_counts[OF s] Cons.IH[OF l] show ?case by auto
qed

lemma verify_interval_total:
  assumes "2 \<le> k"
  shows "\<exists>r. verify_interval k = Inr r"
proof (cases "isprime (2 * k - 1)")
  case True
  then show ?thesis
    by (simp add: verify_interval_def Let_def spin_counts[OF assms True])
next
  case False
  then show ?thesis by (simp add: verify_interval_def)
qed

lemma batch_loop_total:
  "\<forall>k\<in>set ks. 2 \<le> k \<Longrightarrow> \<exists>s'. batch_loop ks s = Inr s'"
proof (induction ks arbitrary: s)
  case Nil
  show ?case by (rule exI[of _ s]) simp
next
  case (Cons k ks)
  obtain rs t h where s: "s = (rs, t, h)" using prod_cases3 by blast
  from Cons.prems obtain r where "verify_interval k = Inr r"
    using verify_interval_total[of k] by auto
  then obtain s1 where "batch_step s k = Inr s1"
    unfolding s by (cases r) auto
  then show ?case using Cons.IH[of s1] Cons.prems by simp
qed

text \<open>
  Claim C6. When \<open>2n - 1\<close> is not prime (for example \<open>n = 20\<close>, \<open>2n - 1 = 39\<close>) the scan is
  skipped and is no error: \<open>verify_interval\<close> returns \<open>None\<close>, the step of the batch loop
  leaves \<open>results\<close>, \<open>total\<close> and \<open>holds\<close> as they are, and in the outcome of every batch
  \<open>n\<close> is in no record while \<open>total\<close> counts exactly the \<open>j\<close> of \<open>2 .. limit\<close> with \<open>2j - 1\<close>
  prime.
\<close>

theorem nonprime_modulus_skipped:
  assumes "\<not> isprime (2 * k - 1)"
  shows "verify_interval k = Inr None
       \<and> batch_step (results, total_n, holds_n) k = Inr (results, total_n, holds_n)
       \<and> (\<exists>rs t h. batch limit = Inr (rs, t, h) \<and> k \<notin> set (map n rs)
             \<and> t = length (filter (\<lambda>j. isprime (2 * j - 1)) [2..limit]))"
proof -
  have v: "verify_interval k = Inr None" using assms by (simp add: verify_interval_def)
  obtain rs t h where b: "batch limit = Inr (rs, t, h)"
    using batch_loop_total[of "[2..limit]" "([], 0, 0)"] by (auto simp: batch_def)
  have "k \<notin> set (map n rs) \<and> t = length (filter (\<lambda>j. isprime (2 * j - 1)) [2..limit])"
    using batch_loop_counts[OF b[unfolded batch_def]] assms by auto
  then show ?thesis using v b by simp
qed

theorem nonprime_modulus_skipped_witness:
  "\<not> isprime (2 * 20 - 1) \<and> verify_interval 20 = Inr None
   \<and> batch_step ([], 0, 0) 20 = Inr ([], 0, 0)
   \<and> \<not> isprime (2 * 5 - 1)
   \<and> (\<exists>rs h. batch 6 = Inr (rs, 4, h) \<and> 5 \<notin> set (map n rs))"
proof -
  have h20: "\<not> isprime (2 * 20 - 1)" by code_simp
  have h5: "\<not> isprime (2 * 5 - 1)" by code_simp
  have c: "length (filter (\<lambda>j. isprime (2 * j - 1)) [2..6]) = 4" by code_simp
  show ?thesis
    using nonprime_modulus_skipped[OF h20, of "[]" 0 0 0]
      nonprime_modulus_skipped[OF h5, of "[]" 0 0 6] h20 h5 c
    by auto
qed

section \<open>The invariant of the composite run scan\<close>

lemma gap_loop_append: "gap_loop (xs @ ys) st = gap_loop ys (gap_loop xs st)"
  by (induction xs arbitrary: st) auto

text \<open>A run of non-primes cannot contain the prime \<open>c - 1\<close>: it lies before it or after it.\<close>

lemma run_split:
  assumes r: "nonprime_run s e a' l'" and c: "s \<le> c" "c = s \<or> isprime (c - 1)"
  shows "l' = 0 \<or> nonprime_run s (c - 1) a' l' \<or> (c \<le> a' \<and> a' + l' \<le> e + 1)"
proof (cases "l' = 0 \<or> a' + l' \<le> c")
  case True
  then show ?thesis using r by (auto simp: nonprime_run_def)
next
  case False
  from r have r': "s \<le> a'" "0 \<le> l'" "a' + l' - 1 \<le> e"
    "\<And>x. a' \<le> x \<Longrightarrow> x < a' + l' \<Longrightarrow> \<not> isprime x"
    by (auto simp: nonprime_run_def)
  have "c \<le> a'"
  proof (rule ccontr)
    assume "\<not> c \<le> a'"
    then have lt: "a' < c" by simp
    then have "c \<noteq> s" using r'(1) by simp
    then have "isprime (c - 1)" using c(2) by simp
    moreover have "\<not> isprime (c - 1)" using r'(4)[of "c - 1"] lt False by simp
    ultimately show False by simp
  qed
  then show ?thesis using r'(3) by simp
qed

text \<open>A run that ends before a prime lies before the last prime or inside the open run.\<close>

lemma run_before_prime:
  assumes r: "nonprime_run s (m + 1) a' l'" and pr: "isprime (m + 1)"
    and c: "s \<le> c" "c \<le> m + 1" "c = s \<or> isprime (c - 1)"
  shows "l' = 0 \<or> nonprime_run s (c - 1) a' l' \<or> (c \<le> a' \<and> a' + l' \<le> m + 1)"
proof (cases "l' = 0")
  case True
  then show ?thesis by simp
next
  case False
  from r have r': "0 \<le> l'" "\<And>x. a' \<le> x \<Longrightarrow> x < a' + l' \<Longrightarrow> \<not> isprime x"
    by (auto simp: nonprime_run_def)
  have "\<not> isprime (a' + l' - 1)" using r'(2)[of "a' + l' - 1"] r'(1) False by simp
  then have "a' + l' - 1 \<noteq> m + 1" using pr by metis
  then show ?thesis using run_split[OF r c(1,3)] by auto
qed

lemma gap_inv_init: "gap_inv s (s - 1) ([], [])"
  unfolding gap_inv_def
  by (rule exI[of _ s], rule exI[of _ s]) (auto simp: nonprime_run_def)

lemma gap_inv_step:
  assumes inv: "gap_inv s m st" and sm: "s \<le> m + 1"
  shows "gap_inv s (m + 1) (gap_step st (m + 1))"
proof -
  obtain mx cur where st: "st = (mx, cur)" by (cases st) auto
  define L where "L = int (length mx)"
  from inv obtain a c where
    c: "s \<le> c" "c \<le> m + 1" "c = s \<or> isprime (c - 1)"
    and cur: "cur = [c..m]"
    and np: "\<And>x. c \<le> x \<Longrightarrow> x \<le> m \<Longrightarrow> \<not> isprime x"
    and mx: "mx = [a..a + L - 1]"
    and run: "nonprime_run s (c - 1) a L"
    and best: "\<And>a' l'. nonprime_run s (c - 1) a' l' \<Longrightarrow> l' \<le> L \<and> (l' = L \<longrightarrow> a \<le> a')"
    unfolding gap_inv_def st L_def by auto
  have lcur: "int (length cur) = m - c + 1" using c(2) by (simp add: cur)
  have L0: "0 \<le> L" by (simp add: L_def)
  have "nonprime_run s (c - 1) s 0" using c(1) by (auto simp: nonprime_run_def)
  then have a_s: "L = 0 \<Longrightarrow> a \<le> s" using best[of s 0] by simp
  show ?thesis
  proof (cases "isprime (m + 1)")
    case False
    have step: "gap_step st (m + 1) = (mx, [c..m + 1])"
      using False c(2) by (simp add: st cur upto_rec2[of c "m + 1"])
    have np': "\<forall>x. c \<le> x \<and> x \<le> m + 1 \<longrightarrow> \<not> isprime x"
    proof (intro allI impI)
      fix x assume "c \<le> x \<and> x \<le> m + 1"
      then have "x \<le> m \<or> x = m + 1" "c \<le> x" by auto
      then show "\<not> isprime x" using np False by auto
    qed
    show ?thesis
      unfolding gap_inv_def step fst_conv snd_conv L_def[symmetric]
      apply (rule exI[of _ a], rule exI[of _ c])
      using c mx run best np' by auto
  next
    case True
    then have pr': "isprime (1 + m)" by (simp add: add.commute)
    show ?thesis
    proof (cases "length cur > length mx")
      case replaced: True
      then have LL: "L < m - c + 1" using lcur by (simp add: L_def)
      have step: "gap_step st (m + 1) = ([c..m], [])"
        using True replaced by (simp add: st cur)
      have len: "int (length [c..m]) = m - c + 1" using c(2) by simp
      have run': "nonprime_run s (m + 2 - 1) c (m - c + 1)"
        using c np by (auto simp: nonprime_run_def)
      have best': "l' \<le> m - c + 1 \<and> (l' = m - c + 1 \<longrightarrow> c \<le> a')"
        if r: "nonprime_run s (m + 2 - 1) a' l'" for a' l'
      proof -
        have r1: "nonprime_run s (m + 1) a' l'" using r by (simp add: add.commute)
        from run_before_prime[OF r1 True c]
        consider "l' = 0" | "nonprime_run s (c - 1) a' l'" | "c \<le> a' \<and> a' + l' \<le> m + 1"
          by blast
        then show ?thesis
        proof cases
          case 1
          then show ?thesis using LL L0 by simp
        next
          case 2
          then show ?thesis using best[of a' l'] LL by simp
        next
          case 3
          then show ?thesis by simp
        qed
      qed
      show ?thesis
        unfolding gap_inv_def step fst_conv snd_conv len
        apply (rule exI[of _ c], rule exI[of _ "m + 2"])
        using run' best' True pr' sm by auto
    next
      case kept: False
      then have LL: "m - c + 1 \<le> L" using lcur by (simp add: L_def)
      have step: "gap_step st (m + 1) = (mx, [])"
        using True kept by (simp add: st)
      have run': "nonprime_run s (m + 2 - 1) a L"
        using run c(2) by (auto simp: nonprime_run_def)
      have aL: "a + L \<le> c" using run by (simp add: nonprime_run_def)
      have best': "l' \<le> L \<and> (l' = L \<longrightarrow> a \<le> a')"
        if r: "nonprime_run s (m + 2 - 1) a' l'" for a' l'
      proof -
        have r1: "nonprime_run s (m + 1) a' l'" using r by (simp add: add.commute)
        have sa: "s \<le> a'" using r by (simp add: nonprime_run_def)
        from run_before_prime[OF r1 True c]
        consider "l' = 0" | "nonprime_run s (c - 1) a' l'" | "c \<le> a' \<and> a' + l' \<le> m + 1"
          by blast
        then show ?thesis
        proof cases
          case 1
          then show ?thesis using L0 a_s sa by auto
        next
          case 2
          then show ?thesis using best[of a' l'] by simp
        next
          case 3
          then show ?thesis using LL aL L0 by auto
        qed
      qed
      show ?thesis
        unfolding gap_inv_def step fst_conv snd_conv L_def[symmetric]
        apply (rule exI[of _ a], rule exI[of _ "m + 2"])
        using run' best' True pr' sm mx by auto
    qed
  qed
qed

lemma gap_inv_loop: "s - 1 \<le> m \<Longrightarrow> gap_inv s m (gap_loop [s..m] ([], []))"
proof (induction m rule: int_ge_induct)
  case base
  show ?case using gap_inv_init[of s] by simp
next
  case (step m)
  have "[s..m + 1] = [s..m] @ [m + 1]" using step.hyps by (simp add: upto_rec2)
  then have "gap_loop [s..m + 1] ([], []) = gap_step (gap_loop [s..m] ([], [])) (m + 1)"
    by (simp add: gap_loop_append)
  then show ?case using gap_inv_step[OF step.IH] step.hyps by simp
qed

text \<open>The run returned is the earliest among the longest runs of non-primes of the interval.\<close>

lemma earliest_longest_run:
  assumes se: "s \<le> e + 1"
  defines "g \<equiv> final_compare (gap_loop [s..e] ([], []))"
  shows "\<exists>a. g = [a..a + int (length g) - 1]
           \<and> nonprime_run s e a (int (length g))
           \<and> (\<forall>a' l'. nonprime_run s e a' l' \<longrightarrow>
                 l' \<le> int (length g) \<and> (l' = int (length g) \<longrightarrow> a \<le> a'))"
proof -
  obtain mx cur where st: "gap_loop [s..e] ([], []) = (mx, cur)"
    by (cases "gap_loop [s..e] ([], [])") auto
  define L where "L = int (length mx)"
  have "gap_inv s e (mx, cur)" using gap_inv_loop[of s e] se by (simp add: st)
  then obtain a c where
    c: "s \<le> c" "c \<le> e + 1" "c = s \<or> isprime (c - 1)"
    and cur: "cur = [c..e]"
    and np: "\<And>x. c \<le> x \<Longrightarrow> x \<le> e \<Longrightarrow> \<not> isprime x"
    and mx: "mx = [a..a + L - 1]"
    and run: "nonprime_run s (c - 1) a L"
    and best: "\<And>a' l'. nonprime_run s (c - 1) a' l' \<Longrightarrow> l' \<le> L \<and> (l' = L \<longrightarrow> a \<le> a')"
    unfolding gap_inv_def L_def by auto
  have lcur: "int (length cur) = e - c + 1" using c(2) by (simp add: cur)
  have L0: "0 \<le> L" by (simp add: L_def)
  have "nonprime_run s (c - 1) s 0" using c(1) by (auto simp: nonprime_run_def)
  then have a_s: "L = 0 \<Longrightarrow> a \<le> s" using best[of s 0] by simp
  have aL: "a + L \<le> c" using run by (simp add: nonprime_run_def)
  show ?thesis
  proof (cases "length cur > length mx")
    case True
    then have LL: "L < e - c + 1" using lcur by (simp add: L_def)
    have g: "g = [c..e]" using True by (simp add: g_def st cur)
    have len: "int (length [c..e]) = e - c + 1" using c(2) by simp
    have run': "nonprime_run s e c (e - c + 1)"
      using c np by (auto simp: nonprime_run_def)
    have best': "l' \<le> e - c + 1 \<and> (l' = e - c + 1 \<longrightarrow> c \<le> a')"
      if r: "nonprime_run s e a' l'" for a' l'
    proof -
      from run_split[OF r c(1,3)]
      consider "l' = 0" | "nonprime_run s (c - 1) a' l'" | "c \<le> a' \<and> a' + l' \<le> e + 1"
        by blast
      then show ?thesis
      proof cases
        case 1
        then show ?thesis using LL L0 by simp
      next
        case 2
        then show ?thesis using best[of a' l'] LL by simp
      next
        case 3
        then show ?thesis by simp
      qed
    qed
    show ?thesis
      unfolding g len
      by (rule exI[of _ c]) (use run' best' in auto)
  next
    case False
    then have LL: "e - c + 1 \<le> L" using lcur by (simp add: L_def)
    have g: "g = mx" using False by (simp add: g_def st)
    have run': "nonprime_run s e a L"
      using run c(2) by (auto simp: nonprime_run_def)
    have best': "l' \<le> L \<and> (l' = L \<longrightarrow> a \<le> a')"
      if r: "nonprime_run s e a' l'" for a' l'
    proof -
      have sa: "s \<le> a'" using r by (simp add: nonprime_run_def)
      from run_split[OF r c(1,3)]
      consider "l' = 0" | "nonprime_run s (c - 1) a' l'" | "c \<le> a' \<and> a' + l' \<le> e + 1"
        by blast
      then show ?thesis
      proof cases
        case 1
        then show ?thesis using L0 a_s sa by auto
      next
        case 2
        then show ?thesis using best[of a' l'] by simp
      next
        case 3
        then show ?thesis using LL aL L0 by auto
      qed
    qed
    show ?thesis
      unfolding g L_def[symmetric]
      by (rule exI[of _ a]) (use run' best' mx in auto)
  qed
qed

section \<open>The run returned by the scan\<close>

lemma square_not_isprime: "\<not> isprime (k ^ 2)"
proof
  assume pr: "isprime (k ^ 2)"
  then have big: "1 < k ^ 2" by (rule isprime_gt1)
  have "k ^ 2 dvd k" using isprime_dvd_power[OF pr, of k 2] by simp
  then have d: "k ^ 2 dvd \<bar>k\<bar>" by simp
  have "k \<noteq> 0" using big by auto
  then have pos: "0 < \<bar>k\<bar>" by simp
  have "\<bar>k\<bar> \<noteq> 1" using big by (auto simp: power2_eq_square abs_if split: if_splits)
  then have "1 < \<bar>k\<bar>" using pos by simp
  then have "\<bar>k\<bar> * 1 < \<bar>k\<bar> * \<bar>k\<bar>" by (intro mult_strict_left_mono) auto
  then have "\<bar>k\<bar> < k ^ 2" by (simp add: power2_eq_square)
  then show False using d pos zdvd_not_zless by blast
qed

lemma find_max_composite_gap_earliest:
  assumes "1 \<le> k"
  defines "g \<equiv> find_max_composite_gap k"
  shows "\<exists>a. g = [a..a + int (length g) - 1]
           \<and> nonprime_run ((k - 1) ^ 2) (k ^ 2) a (int (length g))
           \<and> (\<forall>a' l'. nonprime_run ((k - 1) ^ 2) (k ^ 2) a' l' \<longrightarrow>
                 l' \<le> int (length g) \<and> (l' = int (length g) \<longrightarrow> a \<le> a'))"
proof -
  have "k ^ 2 - (k - 1) ^ 2 = 2 * k - 1" by (simp add: power2_eq_square algebra_simps)
  then have "(k - 1) ^ 2 \<le> k ^ 2 + 1" using assms(1) by linarith
  from earliest_longest_run[OF this] show ?thesis
    by (simp add: g_def find_max_composite_gap_def Let_def)
qed

lemma find_max_composite_gap_nonempty:
  assumes "1 \<le> k"
  shows "find_max_composite_gap k \<noteq> []"
proof -
  have d: "k ^ 2 - (k - 1) ^ 2 = 2 * k - 1" by (simp add: power2_eq_square algebra_simps)
  have "nonprime_run ((k - 1) ^ 2) (k ^ 2) (k ^ 2) 1"
    using d assms square_not_isprime[of k] by (auto simp: nonprime_run_def)
  then have "1 \<le> int (length (find_max_composite_gap k))"
    using find_max_composite_gap_earliest[OF assms] by blast
  then show ?thesis by auto
qed

text \<open>Maximal: the integers next to the run are prime or outside the interval.\<close>

lemma find_max_composite_gap_maximal:
  assumes "1 \<le> k"
  defines "g \<equiv> find_max_composite_gap k"
  shows "g \<noteq> [] \<and> (\<forall>x\<in>set g. (k - 1) ^ 2 \<le> x \<and> x \<le> k ^ 2 \<and> \<not> isprime x)
       \<and> (hd g - 1 < (k - 1) ^ 2 \<or> isprime (hd g - 1))
       \<and> (k ^ 2 < last g + 1 \<or> isprime (last g + 1))"
proof -
  define L where "L = int (length g)"
  have ne: "g \<noteq> []" unfolding g_def by (rule find_max_composite_gap_nonempty[OF assms(1)])
  then have L1: "1 \<le> L" by (cases g) (auto simp: L_def)
  from find_max_composite_gap_earliest[OF assms(1)] obtain a where
    g: "g = [a..a + L - 1]"
    and run: "nonprime_run ((k - 1) ^ 2) (k ^ 2) a L"
    and best: "\<And>a' l'. nonprime_run ((k - 1) ^ 2) (k ^ 2) a' l' \<Longrightarrow> l' \<le> L"
    unfolding g_def L_def by blast
  from run have r: "(k - 1) ^ 2 \<le> a" "a + L - 1 \<le> k ^ 2"
    "\<And>x. a \<le> x \<Longrightarrow> x < a + L \<Longrightarrow> \<not> isprime x"
    by (auto simp: nonprime_run_def)
  have hd: "hd g = a" using L1 by (subst g) (simp add: upto_rec1)
  have "[a..a + L - 1] = [a..a + L - 1 - 1] @ [a + L - 1]"
    using L1 by (intro upto_rec2) simp
  then have last: "last g = a + L - 1" by (subst g) simp
  have mem: "\<forall>x\<in>set g. (k - 1) ^ 2 \<le> x \<and> x \<le> k ^ 2 \<and> \<not> isprime x"
  proof
    fix x assume "x \<in> set g"
    then have "a \<le> x" "x \<le> a + L - 1" by (simp_all add: g)
    then show "(k - 1) ^ 2 \<le> x \<and> x \<le> k ^ 2 \<and> \<not> isprime x" using r by auto
  qed
  have left: "hd g - 1 < (k - 1) ^ 2 \<or> isprime (hd g - 1)"
  proof (rule ccontr)
    assume "\<not> ?thesis"
    then have "(k - 1) ^ 2 \<le> a - 1" "\<not> isprime (a - 1)" by (simp_all add: hd)
    then have lo: "(k - 1) ^ 2 \<le> a - 1" and np: "\<not> isprime (a - 1)" by simp_all
    have "\<not> isprime x" if "a - 1 \<le> x" "x < a - 1 + (L + 1)" for x
    proof (cases "x = a - 1")
      case True
      then show ?thesis using np by simp
    next
      case False
      then show ?thesis using r(3)[of x] that by simp
    qed
    then have "nonprime_run ((k - 1) ^ 2) (k ^ 2) (a - 1) (L + 1)"
      unfolding nonprime_run_def using lo r(2) L1 by simp
    then show False using best[of "a - 1" "L + 1"] by simp
  qed
  have right: "k ^ 2 < last g + 1 \<or> isprime (last g + 1)"
  proof (rule ccontr)
    assume "\<not> ?thesis"
    then have "a + L \<le> k ^ 2" "\<not> isprime (a + L)" by (simp_all add: last)
    then have hi: "a + L \<le> k ^ 2" and np: "\<not> isprime (a + L)" by simp_all
    have "\<not> isprime x" if "a \<le> x" "x < a + (L + 1)" for x
    proof (cases "x = a + L")
      case True
      then show ?thesis using np by simp
    next
      case False
      then show ?thesis using r(3)[of x] that by simp
    qed
    then have "nonprime_run ((k - 1) ^ 2) (k ^ 2) a (L + 1)"
      unfolding nonprime_run_def using hi r(1) L1 by simp
    then show False using best[of a "L + 1"] by simp
  qed
  show ?thesis using ne mem left right by simp
qed

section \<open>Prime factors and the radical\<close>

lemma prime_factor_exists: "1 < m \<Longrightarrow> \<exists>q. isprime q \<and> q dvd m"
proof (induction "nat m" arbitrary: m rule: less_induct)
  case less
  show ?case
  proof (cases "isprime m")
    case True
    then show ?thesis by auto
  next
    case False
    then obtain d where d: "2 \<le> d" "d < m" "d dvd m"
      using less.prems by (auto simp: isprime_iff)
    then have "nat d < nat m" "1 < d" by simp_all
    from less.hyps[OF this] obtain q where "isprime q" "q dvd d" by blast
    then show ?thesis using d(3) by (meson dvd_trans)
  qed
qed

lemma keys_factorint_pos:
  assumes "0 < c"
  shows "keys (factorint c) = filter (\<lambda>q. isprime q \<and> q dvd c) [2..c]"
  using assms by (simp add: keys_def factorint_def comp_def)

lemma set_keys_factorint:
  assumes "0 < c"
  shows "set (keys (factorint c)) = {q. isprime q \<and> q dvd c}"
proof -
  have "2 \<le> q \<and> q \<le> c" if "isprime q" "q dvd c" for q
    using that assms isprime_gt1[of q] zdvd_imp_le[of q c] by simp
  then show ?thesis unfolding keys_factorint_pos[OF assms] by auto
qed

lemma distinct_keys_factorint: "0 < c \<Longrightarrow> distinct (keys (factorint c))"
  by (simp add: keys_factorint_pos)

lemma set_collect_primes:
  "\<forall>c\<in>set cs. 0 < c \<Longrightarrow>
     set (collect_primes acc cs) = set acc \<union> {q. isprime q \<and> (\<exists>c\<in>set cs. q dvd c)}"
proof (induction cs arbitrary: acc)
  case Nil
  then show ?case by simp
next
  case (Cons c cs)
  then have "0 < c" "\<forall>c\<in>set cs. 0 < c" by simp_all
  then show ?case using Cons.IH[of "List.union (keys (factorint c)) acc"]
    by (auto simp: set_keys_factorint)
qed

lemma distinct_collect_primes:
  "distinct acc \<Longrightarrow> distinct (collect_primes acc cs)"
  by (induction cs arbitrary: acc) auto

lemma collect_primes_isprime:
  assumes "\<forall>c\<in>set cs. 0 < c" "q \<in> set (collect_primes [] cs)"
  shows "isprime q" "\<exists>c\<in>set cs. q dvd c"
  using assms set_collect_primes[of cs "[]"] by auto

lemma collect_primes_empty_iff:
  assumes "\<forall>c\<in>set cs. 0 < c"
  shows "collect_primes [] cs = [] \<longleftrightarrow> (\<forall>c\<in>set cs. c = 1)"
proof
  assume e: "collect_primes [] cs = []"
  show "\<forall>c\<in>set cs. c = 1"
  proof
    fix c assume c: "c \<in> set cs"
    show "c = 1"
    proof (rule ccontr)
      assume "c \<noteq> 1"
      then have "1 < c" using assms c by fastforce
      then obtain q where "isprime q" "q dvd c" using prime_factor_exists by blast
      then have "q \<in> set (collect_primes [] cs)"
        using set_collect_primes[OF assms, of "[]"] c by auto
      then show False using e by simp
    qed
  qed
next
  assume one: "\<forall>c\<in>set cs. c = 1"
  have "\<not> (isprime q \<and> (\<exists>c\<in>set cs. q dvd c))" for q
    using one isprime_gt1[of q] by auto
  then have "set (collect_primes [] cs) = {}"
    using set_collect_primes[OF assms, of "[]"] by auto
  then show "collect_primes [] cs = []" by simp
qed

section \<open>Log-volume and log-radical\<close>

lemma sum_logs_pos:
  "\<forall>c\<in>set cs. 0 < c \<Longrightarrow> sum_logs acc cs = Inr (acc + ln (real_of_int (prod_list cs)))"
proof (induction cs arbitrary: acc)
  case Nil
  then show ?case by simp
next
  case (Cons c cs)
  then have c: "0 < c" and cs: "\<forall>c\<in>set cs. 0 < c" by simp_all
  have "0 < prod_list cs" using cs by (induction cs) auto
  then have "ln (real_of_int (c * prod_list cs)) = ln (real_of_int c) + ln (real_of_int (prod_list cs))"
    using c by (simp add: ln_mult)
  then show ?case using c Cons.IH[OF cs] by (simp add: py_log_def)
qed

lemma sum_logs_error: "sum_logs acc cs = Inl e \<Longrightarrow> e = ValueError"
  by (induction cs arbitrary: acc) (auto simp: py_log_def split: if_splits)

lemma prod_list_pos: "\<forall>c\<in>set cs. 0 < c \<Longrightarrow> 0 < prod_list (cs :: int list)"
  by (induction cs) auto

lemma prod_list_gt1: "cs \<noteq> [] \<Longrightarrow> \<forall>c\<in>set cs. 1 < c \<Longrightarrow> 1 < prod_list (cs :: int list)"
proof (induction cs)
  case Nil
  then show ?case by simp
next
  case (Cons c cs)
  show ?case
  proof (cases "cs = []")
    case True
    then show ?thesis using Cons.prems by simp
  next
    case False
    then have "1 < prod_list cs" using Cons by simp
    moreover have "1 < c" using Cons.prems by simp
    ultimately have "1 * 1 < c * prod_list cs" by (intro mult_strict_mono) auto
    then show ?thesis by simp
  qed
qed

lemma isprime_coprime_distinct:
  assumes "isprime q" "isprime r" "q \<noteq> r"
  shows "coprime q r"
proof (rule isprime_coprime[OF assms(1)])
  show "\<not> q dvd r"
  proof
    assume "q dvd r"
    then have "q = 1 \<or> q = r" using isprime_divisor[OF assms(2), of q] isprime_gt1[OF assms(1)] by simp
    then show False using assms(3) isprime_gt1[OF assms(1)] by simp
  qed
qed

text \<open>A product of distinct primes that all divide \<open>m\<close> divides \<open>m\<close>.\<close>

lemma distinct_primes_dvd:
  "distinct qs \<Longrightarrow> \<forall>q\<in>set qs. isprime q \<and> q dvd m \<Longrightarrow> prod_list qs dvd m"
proof (induction qs)
  case Nil
  then show ?case by simp
next
  case (Cons q qs)
  then have q: "isprime q" "q dvd m" "q \<notin> set qs" and rest: "prod_list qs dvd m" by auto
  have "coprime q r" if "r \<in> set qs" for r
    using that Cons.prems q isprime_coprime_distinct[of q r] by auto
  then have "coprime q (prod_list qs)"
    by (induction qs) auto
  then show ?case using q(2) rest by (simp add: divides_mult)
qed

lemma radical_dvd_product:
  assumes "\<forall>c\<in>set cs. 0 < c"
  shows "prod_list (collect_primes [] cs) dvd prod_list cs"
proof (rule distinct_primes_dvd)
  show "distinct (collect_primes [] cs)" by (rule distinct_collect_primes) simp
  show "\<forall>q\<in>set (collect_primes [] cs). isprime q \<and> q dvd prod_list cs"
  proof
    fix q assume q: "q \<in> set (collect_primes [] cs)"
    from collect_primes_isprime[OF assms q] obtain c where "isprime q" "c \<in> set cs" "q dvd c"
      by blast
    then show "isprime q \<and> q dvd prod_list cs"
      using dvd_prod_list_member[of c cs] by (meson dvd_trans)
  qed
qed

lemma collect_primes_pos:
  assumes "\<forall>c\<in>set cs. 0 < c"
  shows "\<forall>q\<in>set (collect_primes [] cs). 0 < q"
  using collect_primes_isprime(1)[OF assms] isprime_gt1 by fastforce

lemma radical_ge2:
  assumes "\<forall>c\<in>set cs. 0 < c" "collect_primes [] cs \<noteq> []"
  shows "2 \<le> prod_list (collect_primes [] cs)"
proof -
  have "2 \<le> prod_list qs" if "qs \<noteq> []" "\<forall>q\<in>set qs. 2 \<le> q" for qs :: "int list"
    using that
  proof (induction qs)
    case Nil
    then show ?case by simp
  next
    case (Cons q qs)
    show ?case
    proof (cases "qs = []")
      case True
      then show ?thesis using Cons.prems by simp
    next
      case False
      then have "2 \<le> prod_list qs" using Cons by simp
      moreover have "2 \<le> q" using Cons.prems by simp
      ultimately have "2 * 1 \<le> q * prod_list qs" by (intro mult_mono) auto
      then show ?thesis by simp
    qed
  qed
  moreover have "\<forall>q\<in>set (collect_primes [] cs). 2 \<le> q"
    using collect_primes_isprime(1)[OF assms(1)] isprime_gt1 by fastforce
  ultimately show ?thesis using assms(2) by blast
qed

lemma compute_wronskian_pos:
  assumes ne: "cs \<noteq> []" and pos: "\<forall>c\<in>set cs. 0 < c"
  defines "lv \<equiv> ln (real_of_int (prod_list cs))"
    and "lr \<equiv> ln (real_of_int (prod_list (collect_primes [] cs)))"
  shows "compute_wronskian cs =
           Inr (Some (lv, lr, if collect_primes [] cs = [] then Infinity else Finite (lv / lr)))"
    and "collect_primes [] cs \<noteq> [] \<Longrightarrow> 0 < lr"
proof -
  have v: "sum_logs 0 cs = Inr lv" using sum_logs_pos[OF pos, of 0] by (simp add: lv_def)
  have r: "sum_logs 0 (collect_primes [] cs) = Inr lr"
    using sum_logs_pos[OF collect_primes_pos[OF pos], of 0] by (simp add: lr_def)
  show lr_pos: "0 < lr" if "collect_primes [] cs \<noteq> []"
    using radical_ge2[OF pos that] by (simp add: lr_def)
  have lr0: "lr = 0" if "collect_primes [] cs = []" using that by (simp add: lr_def)
  show "compute_wronskian cs =
           Inr (Some (lv, lr, if collect_primes [] cs = [] then Infinity else Finite (lv / lr)))"
  proof (cases "collect_primes [] cs = []")
    case True
    then show ?thesis using ne v r lr0 by (simp add: compute_wronskian_def)
  next
    case False
    then show ?thesis using ne v r lr_pos by (simp add: compute_wronskian_def py_div_def)
  qed
qed

section \<open>The claims on the Radical Volume Calculator\<close>

lemma collect_primes_nonempty:
  assumes "cs \<noteq> []" "\<forall>c\<in>set cs. 1 < c"
  shows "collect_primes [] cs \<noteq> []"
proof -
  have pos: "\<forall>c\<in>set cs. 0 < c" using assms(2) by fastforce
  obtain c where "c \<in> set cs" using assms(1) by (cases cs) auto
  then have "\<not> (\<forall>c\<in>set cs. c = 1)" using assms(2) by fastforce
  then show ?thesis using collect_primes_empty_iff[OF pos] by simp
qed

text \<open>
  The bound "log-radical at most log-volume" over the integers. For a non-empty list of
  integers greater than one, the primes that \<open>compute_wronskian\<close> collects are distinct,
  they are exactly the primes that divide some member, and their product, the radical,
  is greater than one, divides the product of the members and is at most it.
\<close>

lemma radical_divides_product:
  assumes "cs \<noteq> []" "\<forall>c\<in>set cs. 1 < c"
  shows "distinct (collect_primes [] cs)"
    and "set (collect_primes [] cs) = {q. isprime q \<and> (\<exists>c\<in>set cs. q dvd c)}"
    and "1 < prod_list (collect_primes [] cs)"
    and "prod_list (collect_primes [] cs) dvd prod_list cs"
    and "prod_list (collect_primes [] cs) \<le> prod_list cs"
proof -
  have pos: "\<forall>c\<in>set cs. 0 < c" using assms(2) by fastforce
  show "distinct (collect_primes [] cs)" by (rule distinct_collect_primes) simp
  show "set (collect_primes [] cs) = {q. isprime q \<and> (\<exists>c\<in>set cs. q dvd c)}"
    using set_collect_primes[OF pos, of "[]"] by simp
  show "1 < prod_list (collect_primes [] cs)"
    using radical_ge2[OF pos collect_primes_nonempty[OF assms]] by simp
  show d: "prod_list (collect_primes [] cs) dvd prod_list cs" by (rule radical_dvd_product[OF pos])
  show "prod_list (collect_primes [] cs) \<le> prod_list cs"
    using d prod_list_pos[OF pos] by (simp add: zdvd_imp_le)
qed


text \<open>
  Claim C9. \<open>compute_wronskian\<close> is total on every list of integers greater than zero: it
  returns a value and raises nothing. On no list at all does it end in
  \<open>ZeroDivisionError\<close>, since the division is reached only under \<open>log_radical > 0\<close>; the
  empty list gives the triple \<open>(None, None, None)\<close>.
\<close>

theorem compute_wronskian_total:
  "((\<forall>c\<in>set cs. 0 < c) \<longrightarrow> (\<exists>r. compute_wronskian cs = Inr r))
   \<and> compute_wronskian cs \<noteq> Inl ZeroDivisionError
   \<and> compute_wronskian [] = Inr None"
proof (intro conjI)
  show "(\<forall>c\<in>set cs. 0 < c) \<longrightarrow> (\<exists>r. compute_wronskian cs = Inr r)"
  proof (cases "cs = []")
    case True
    then show ?thesis by (simp add: compute_wronskian_def)
  next
    case False
    then show ?thesis using compute_wronskian_pos(1)[OF False] by auto
  qed
  show "compute_wronskian [] = Inr None" by (simp add: compute_wronskian_def)
  show "compute_wronskian cs \<noteq> Inl ZeroDivisionError"
    by (auto simp: compute_wronskian_def py_div_def split: sum.splits if_splits
        dest: sum_logs_error)
qed

theorem compute_wronskian_total_witness:
  "list_all (\<lambda>c. 0 < c) [8, 9 :: int] \<and> (\<exists>r. compute_wronskian [8, 9] = Inr r)
   \<and> compute_wronskian [8, 9] \<noteq> Inl ZeroDivisionError
   \<and> compute_wronskian [0] = Inl ValueError"
proof -
  have "compute_wronskian [0] = Inl ValueError"
    by (simp add: compute_wronskian_def py_log_def)
  then show ?thesis using compute_wronskian_total[of "[8, 9]"] by simp
qed

lemma find_max_composite_gap_members:
  assumes "1 \<le> k" "x \<in> set (find_max_composite_gap k)"
  shows "(k - 1) ^ 2 \<le> x" "x \<le> k ^ 2" "\<not> isprime x"
  using find_max_composite_gap_maximal[OF assms(1)] assms(2) by auto

lemma run_from_3_gt1:
  assumes "3 \<le> k" "x \<in> set (find_max_composite_gap k)"
  shows "1 < x"
proof -
  have "2 \<le> k - 1" using assms(1) by simp
  then have "2 * 2 \<le> (k - 1) * (k - 1)" by (intro mult_mono) auto
  then have "4 \<le> (k - 1) ^ 2" by (simp add: power2_eq_square)
  then show ?thesis using find_max_composite_gap_members(1)[of k x] assms by simp
qed

text \<open>
  On a non-empty list of integers greater than one, so on every non-empty list of
  composites, some prime is collected: the log-radical is positive and the ratio is an
  ordinary number. The runs that \<open>find_max_composite_gap\<close> returns from \<open>n = 3\<close> on are
  such lists.
\<close>

lemma positive_radical_on_composites:
  assumes "cs \<noteq> []" "\<forall>c\<in>set cs. 1 < c"
  shows "\<exists>lv lr q. compute_wronskian cs = Inr (Some (lv, lr, Finite q)) \<and> 0 < lr"
proof -
  have pos: "\<forall>c\<in>set cs. 0 < c" using assms(2) by fastforce
  note pr = collect_primes_nonempty[OF assms]
  show ?thesis
    using compute_wronskian_pos(1)[OF assms(1) pos] compute_wronskian_pos(2)[OF assms(1) pos pr] pr
    by simp
qed

lemma positive_radical_from_3:
  assumes "3 \<le> k"
  shows "find_max_composite_gap k \<noteq> []"
    and "\<exists>lv lr q. compute_wronskian (find_max_composite_gap k) = Inr (Some (lv, lr, Finite q))
           \<and> 0 < lr"
proof -
  show ne: "find_max_composite_gap k \<noteq> []"
    by (rule find_max_composite_gap_nonempty) (use assms in simp)
  have gt1: "\<forall>c\<in>set (find_max_composite_gap k). 1 < c" using run_from_3_gt1[OF assms] by blast
  show "\<exists>lv lr q. compute_wronskian (find_max_composite_gap k) = Inr (Some (lv, lr, Finite q))
           \<and> 0 < lr"
    by (rule positive_radical_on_composites[OF ne gt1])
qed

text \<open>
  Claim C3 (the sentinel occurs only at the empty run: on every non-empty run returned by
  the finder the log-radical is strictly positive and the ratio is an ordinary number).
  At \<open>n = 2\<close> the finder returns the non-empty run \<open>[1]\<close>, whose member \<open>1\<close> is not
  composite: the test \<open>not isprime(x)\<close> lets it through, as under claim C2. On that run
  \<open>compute_wronskian\<close> collects no prime, \<open>log_radical\<close> is \<open>0\<close>, and the guard
  \<open>if log_radical > 0 else float('inf')\<close> returns the sentinel.
\<close>

theorem sentinel_at_nonempty_run:
  "find_max_composite_gap 2 = [1] \<and> find_max_composite_gap 2 \<noteq> []
   \<and> compute_wronskian (find_max_composite_gap 2) = Inr (Some (0, 0, Infinity))"
proof -
  have g: "find_max_composite_gap 2 = [1]" by code_simp
  have c: "collect_primes [] [1] = []" by code_simp
  have "compute_wronskian [1] = Inr (Some (0, 0, Infinity))"
    using compute_wronskian_pos(1)[of "[1]"] c by simp
  then show ?thesis using g by simp
qed

lemma fold_times: "fold (\<lambda>x t. t * x) xs a = a * prod_list (xs :: int list)"
  by (induction xs arbitrary: a) (auto simp: algebra_simps)

lemma prod_list_distinct_set:
  assumes "distinct xs" "distinct ys" "set xs = set ys"
  shows "prod_list xs = prod_list (ys :: int list)"
proof -
  have "prod_list xs = prod (\<lambda>x. x) (set xs)"
    using prod.distinct_set_conv_list[OF assms(1), of "\<lambda>x. x"] by simp
  also have "\<dots> = prod (\<lambda>x. x) (set ys)" by (simp add: assms(3))
  also have "\<dots> = prod_list ys"
    using prod.distinct_set_conv_list[OF assms(2), of "\<lambda>x. x"] by simp
  finally show ?thesis .
qed

text \<open>
  Claim C10. For every non-empty list of integers greater than one, \<open>compute_radical\<close> of
  the product of the list (\<open>dual_weapon.py\<close>) is the product of the primes collected
  member by member (\<open>wronskian_scanner.py\<close>), so the log-radical of the second script is
  the logarithm of the radical of the first.
\<close>

theorem radicals_agree:
  assumes "cs \<noteq> []" "\<forall>c\<in>set cs. 1 < c"
  shows "compute_radical (total_product cs) = prod_list (collect_primes [] cs)
       \<and> sum_logs 0 (collect_primes [] cs)
           = Inr (ln (real_of_int (compute_radical (total_product cs))))"
proof -
  have pos: "\<forall>c\<in>set cs. 0 < c" using assms(2) by fastforce
  define P where "P = prod_list cs"
  have tp: "total_product cs = P" by (simp add: total_product_def fold_times P_def)
  have P1: "1 < P" unfolding P_def by (rule prod_list_gt1[OF assms])
  then have P0: "0 < P" by simp
  have "set (keys (factorint P)) = {q. isprime q \<and> q dvd P}" by (rule set_keys_factorint[OF P0])
  also have "\<dots> = {q. isprime q \<and> (\<exists>c\<in>set cs. q dvd c)}"
  proof (rule set_eqI, rule iffI)
    fix q assume "q \<in> {q. isprime q \<and> q dvd P}"
    then show "q \<in> {q. isprime q \<and> (\<exists>c\<in>set cs. q dvd c)}"
      using isprime_dvd_prod_list[of q cs] by (simp add: P_def)
  next
    fix q assume "q \<in> {q. isprime q \<and> (\<exists>c\<in>set cs. q dvd c)}"
    then obtain c where "isprime q" "c \<in> set cs" "q dvd c" by blast
    then show "q \<in> {q. isprime q \<and> q dvd P}"
      using dvd_prod_list_member[of c cs] unfolding P_def by (simp, meson dvd_trans)
  qed
  also have "\<dots> = set (collect_primes [] cs)" using set_collect_primes[OF pos, of "[]"] by simp
  finally have s: "set (keys (factorint P)) = set (collect_primes [] cs)" .
  have "compute_radical P = prod_list (keys (factorint P))"
    using P1 by (simp add: compute_radical_def fold_times)
  also have "\<dots> = prod_list (collect_primes [] cs)"
    by (rule prod_list_distinct_set[OF distinct_keys_factorint[OF P0] _ s])
       (rule distinct_collect_primes, simp)
  finally have r: "compute_radical (total_product cs) = prod_list (collect_primes [] cs)"
    by (simp add: tp)
  show ?thesis
    using r sum_logs_pos[OF collect_primes_pos[OF pos], of 0] by simp
qed

theorem radicals_agree_witness:
  "[8, 9] \<noteq> ([] :: int list) \<and> list_all (\<lambda>c. 1 < c) [8, 9 :: int]
   \<and> compute_radical (total_product [8, 9]) = 6 \<and> prod_list (collect_primes [] [8, 9]) = 6"
proof -
  have c: "collect_primes [] [8, 9] = [3, 2]" by code_simp
  show ?thesis using radicals_agree[of "[8, 9]"] c by simp
qed

section \<open>The claims on the Composite Run Finder\<close>

text \<open>
  Claim C2 (every member of the returned run is composite, and the run is maximal). At
  \<open>n = 2\<close> the scan of \<open>1 .. 4\<close> returns \<open>[1]\<close>, and \<open>1\<close> is not composite: the test
  \<open>not isprime(x)\<close> also accepts \<open>1\<close>. The docstring promises a list of composites.
\<close>

theorem composite_run_fails_at_2:
  "find_max_composite_gap 2 = [1] \<and> \<not> composite 1"
proof -
  have "find_max_composite_gap 2 = [1]" by code_simp
  then show ?thesis by (simp add: composite_def)
qed

text \<open>
  From \<open>n = 3\<close> on the interval starts at \<open>4\<close> and the property holds: the run is not
  empty, every member is composite, and the neighbours of the run are prime or outside
  the interval.
\<close>

lemma composite_run_from_3:
  assumes "3 \<le> k"
  defines "g \<equiv> find_max_composite_gap k"
  shows "g \<noteq> [] \<and> (\<forall>x\<in>set g. composite x)
       \<and> (hd g - 1 < (k - 1) ^ 2 \<or> isprime (hd g - 1))
       \<and> (k ^ 2 < last g + 1 \<or> isprime (last g + 1))"
proof -
  have k1: "1 \<le> k" using assms(1) by simp
  have "\<forall>x\<in>set g. composite x"
    unfolding g_def composite_def
    using run_from_3_gt1[OF assms(1)] find_max_composite_gap_members(3)[OF k1] by blast
  then show ?thesis using find_max_composite_gap_maximal[OF k1] by (simp add: g_def)
qed

text \<open>
  Claim C5. A step of the scan replaces the best run only at a prime and only by a
  strictly longer run; \<open>find_max_composite_gap\<close> makes one more comparison after the loop;
  and so the run returned is a run of non-primes of the interval that is at least as long
  as every other one, including those that end at \<open>n\<^sup>2\<close>, and that starts no later than any
  run of the same length (the earliest of the longest runs).
\<close>

theorem earliest_longest_run_returned:
  assumes "1 \<le> k"
  defines "g \<equiv> find_max_composite_gap k"
  shows "fst (gap_step (max_gap, current_gap) x)
           = (if isprime x \<and> length max_gap < length current_gap then current_gap else max_gap)
       \<and> g = final_compare (gap_loop [(k - 1) ^ 2..k ^ 2] ([], []))
       \<and> (\<exists>a. g = [a..a + int (length g) - 1]
             \<and> nonprime_run ((k - 1) ^ 2) (k ^ 2) a (int (length g))
             \<and> (\<forall>a' l'. nonprime_run ((k - 1) ^ 2) (k ^ 2) a' l' \<longrightarrow>
                   l' \<le> int (length g) \<and> (l' = int (length g) \<longrightarrow> a \<le> a')))"
proof (intro conjI)
  show "fst (gap_step (max_gap, current_gap) x)
           = (if isprime x \<and> length max_gap < length current_gap then current_gap else max_gap)"
    by simp
  show "g = final_compare (gap_loop [(k - 1) ^ 2..k ^ 2] ([], []))"
    by (simp add: g_def find_max_composite_gap_def Let_def)
  show "\<exists>a. g = [a..a + int (length g) - 1]
             \<and> nonprime_run ((k - 1) ^ 2) (k ^ 2) a (int (length g))
             \<and> (\<forall>a' l'. nonprime_run ((k - 1) ^ 2) (k ^ 2) a' l' \<longrightarrow>
                   l' \<le> int (length g) \<and> (l' = int (length g) \<longrightarrow> a \<le> a'))"
    unfolding g_def by (rule find_max_composite_gap_earliest[OF assms(1)])
qed

lemma nonprime_run_44: "nonprime_run 36 49 44 3"
proof -
  have "\<not> isprime x" if "44 \<le> x" "x < 44 + 3" for x
  proof -
    have "x = 44 \<or> x = 45 \<or> x = 46" using that by auto
    moreover have "\<not> isprime 44" "\<not> isprime 45" "\<not> isprime 46" by code_simp+
    ultimately show ?thesis by auto
  qed
  then show ?thesis by (simp add: nonprime_run_def)
qed

theorem earliest_longest_run_returned_witness:
  "(1 :: int) \<le> 7 \<and> find_max_composite_gap 7 = [38, 39, 40]
   \<and> nonprime_run 36 49 44 3
   \<and> (\<exists>a. find_max_composite_gap 7 = [a..a + 2] \<and> a \<le> 44)
   \<and> find_max_composite_gap 3 = [8, 9] \<and> last (find_max_composite_gap 3) = 3 ^ 2"
proof -
  have g7: "find_max_composite_gap 7 = [38, 39, 40]" by code_simp
  have g3: "find_max_composite_gap 3 = [8, 9]" by code_simp
  have len: "int (length (find_max_composite_gap 7)) = 3" by (simp add: g7)
  have r: "nonprime_run ((7 - 1) ^ 2) (7 ^ 2) 44 3" using nonprime_run_44 by simp
  have k7: "(1 :: int) \<le> 7" by simp
  note th = earliest_longest_run_returned[OF k7, THEN conjunct2, THEN conjunct2]
  from th obtain a where
    a0: "find_max_composite_gap 7 = [a..a + int (length (find_max_composite_gap 7)) - 1]"
    and best: "\<forall>a' l'. nonprime_run ((7 - 1) ^ 2) (7 ^ 2) a' l' \<longrightarrow>
                 l' \<le> int (length (find_max_composite_gap 7))
                 \<and> (l' = int (length (find_max_composite_gap 7)) \<longrightarrow> a \<le> a')"
    by blast
  have a44: "a \<le> 44" using best[rule_format, OF r] len by simp
  have e2: "a + int (length (find_max_composite_gap 7)) - 1 = a + 2" using len by simp
  have a2: "find_max_composite_gap 7 = [a..a + 2]" using a0 unfolding e2 .
  have e: "\<exists>a. find_max_composite_gap 7 = [a..a + 2] \<and> a \<le> 44"
    using a2 a44 by blast
  have l3: "last (find_max_composite_gap 3) = 3 ^ 2" by (simp add: g3)
  show ?thesis by (intro conjI) (rule k7 g7 nonprime_run_44 e g3 l3)+
qed

end
